theory Spec2Isabelle
  imports Complex_Main
begin

section \<open>JavaScript strings and the built-ins the extractors call\<close>

text \<open>
  A JavaScript string is a sequence of UTF-16 code units. A code unit is modelled as a
  natural number, so every string the program can receive is a \<open>nat list\<close>; the
  source only ever compares code units with ASCII characters and with the white space
  class of regular expressions. \<open>js\<close> turns an ASCII literal into its code units.
\<close>

type_synonym jsstring = "nat list"

definition js :: "string \<Rightarrow> jsstring" where
  "js s = map of_char s"

text \<open>\<open>text[i]\<close>: the code unit at \<open>i\<close>, \<open>undefined\<close> (here \<open>None\<close>) out of range.\<close>

definition charAt :: "jsstring \<Rightarrow> nat \<Rightarrow> nat option" where
  "charAt s i = (if i < length s then Some (s ! i) else None)"

text \<open>\<open>s.substring(a, b)\<close>: both indices are clamped to the length and swapped when
  \<open>a > b\<close>.\<close>

definition substring :: "jsstring \<Rightarrow> nat \<Rightarrow> nat \<Rightarrow> jsstring" where
  "substring s a b =
     (let a' = min a (length s); b' = min b (length s)
      in take (max a' b' - min a' b') (drop (min a' b') s))"

text \<open>The characters matched by \<open>\s\<close>, which are also the ones \<open>parseFloat\<close> strips:
  TAB, LF, VT, FF, CR, SP, NBSP, U+1680, U+2000..U+200A, U+2028, U+2029, U+202F, U+205F,
  U+3000 and U+FEFF.\<close>

definition isWhiteSpace :: "nat \<Rightarrow> bool" where
  "isWhiteSpace c =
     (c = 9 \<or> c = 10 \<or> c = 11 \<or> c = 12 \<or> c = 13 \<or> c = 32 \<or> c = 160 \<or> c = 5760
      \<or> (8192 \<le> c \<and> c \<le> 8202) \<or> c = 8232 \<or> c = 8233 \<or> c = 8239 \<or> c = 8287
      \<or> c = 12288 \<or> c = 65279)"

text \<open>The character classes of the source: \<open>0-9\<close>, \<open>a-zA-Z\<close>, \<open>a-zA-Z0-9\<close>.\<close>

definition digitUnit :: "nat \<Rightarrow> bool" where
  "digitUnit c = (of_char CHR ''0'' \<le> c \<and> c \<le> of_char CHR ''9'')"

definition alphaUnit :: "nat \<Rightarrow> bool" where
  "alphaUnit c = ((of_char CHR ''a'' \<le> c \<and> c \<le> of_char CHR ''z'')
                  \<or> (of_char CHR ''A'' \<le> c \<and> c \<le> of_char CHR ''Z''))"

definition alnumUnit :: "nat \<Rightarrow> bool" where
  "alnumUnit c = (alphaUnit c \<or> digitUnit c)"

text \<open>\<open>isDigit(char: string | undefined)\<close>: false on \<open>undefined\<close>, otherwise the
  comparison \<open>char >= '0' && char <= '9'\<close> of a one-unit string.\<close>

definition isDigit :: "nat option \<Rightarrow> bool" where
  "isDigit ch = (case ch of None \<Rightarrow> False | Some c \<Rightarrow> digitUnit c)"

subsection \<open>\<open>parseFloat\<close>, \<open>isNaN\<close>, \<open>isFinite\<close>\<close>

text \<open>
  \<open>parseFloat\<close> strips leading white space and reads the longest prefix that is a
  \<open>StrDecimalLiteral\<close>: an optional sign, then \<open>Infinity\<close> or decimal digits with an
  optional fraction and an optional exponent. Without such a prefix the result is NaN.
  The mathematical value read is rounded to the nearest double, and a value of
  \<open>2^1024 - 2^970\<close> or more rounds to Infinity. Only \<open>isNaN\<close> and \<open>isFinite\<close> observe
  the result here, so a finite result carries the exact decimal value read, before
  rounding.
\<close>

datatype jsnumber = NaN | Infinity bool | Finite rat

definition isNaN :: "jsnumber \<Rightarrow> bool" where
  "isNaN x = (x = NaN)"

definition isFinite :: "jsnumber \<Rightarrow> bool" where
  "isFinite x = (case x of Finite q \<Rightarrow> True | _ \<Rightarrow> False)"

definition digitsValue :: "jsstring \<Rightarrow> int" where
  "digitsValue ds = foldl (\<lambda>a d. 10 * a + (int d - of_char CHR ''0'')) 0 ds"

definition overflowBound :: rat where
  "overflowBound = 2 ^ 1024 - 2 ^ 970"

definition toNumber :: "bool \<Rightarrow> jsstring \<Rightarrow> int \<Rightarrow> jsnumber" where
  "toNumber neg ds e =
     (let q = of_int (digitsValue ds) * (10 :: rat) powi e
      in if overflowBound \<le> q then Infinity neg else Finite (if neg then - q else q))"

definition exponentPart :: "jsstring \<Rightarrow> int" where
  "exponentPart r =
     (case r of
        [] \<Rightarrow> 0
      | c # r' \<Rightarrow>
          if c = of_char CHR ''e'' \<or> c = of_char CHR ''E'' then
            (let neg = (r' \<noteq> [] \<and> hd r' = of_char CHR ''-'');
                 r'' = (if r' \<noteq> [] \<and> (hd r' = of_char CHR ''+'' \<or> hd r' = of_char CHR ''-'')
                        then tl r' else r');
                 ds = takeWhile digitUnit r''
             in if ds = [] then 0
                else if neg then - digitsValue ds else digitsValue ds)
          else 0)"

definition parseFloat :: "jsstring \<Rightarrow> jsnumber" where
  "parseFloat s =
     (let t = dropWhile isWhiteSpace s;
          neg = (t \<noteq> [] \<and> hd t = of_char CHR ''-'');
          u = (if t \<noteq> [] \<and> (hd t = of_char CHR ''+'' \<or> hd t = of_char CHR ''-'')
               then tl t else t);
          ip = takeWhile digitUnit u;
          r1 = dropWhile digitUnit u;
          fp = takeWhile digitUnit (tl r1);
          r2 = dropWhile digitUnit (tl r1)
      in if take 8 u = js ''Infinity'' then Infinity neg
         else if ip \<noteq> [] then
           (if r1 \<noteq> [] \<and> hd r1 = of_char CHR ''.''
            then toNumber neg (ip @ fp) (exponentPart r2 - int (length fp))
            else toNumber neg ip (exponentPart r1))
         else if r1 \<noteq> [] \<and> hd r1 = of_char CHR ''.'' \<and> fp \<noteq> []
           then toNumber neg fp (exponentPart r2 - int (length fp))
         else NaN)"

section \<open>The data model\<close>

text \<open>
  Modelled from the spec: the declarations of \<open>Token\<close>, \<open>Entity\<close> and \<open>IntentResult\<close>
  (\<open>src/types\<close>, \<open>src/core/Tokenizer\<close>) are not part of the sources at hand. The spec
  gives a token as \<open>{type, value, start, end}\<close> with a type among word, number, punct and
  symbol, an entity as \<open>{type, value, start, end}\<close> with a type among email, phone, url
  and number, and the result as \<open>{text, tokens, entities}\<close>. Offsets are indices into the
  text, hence natural numbers.
\<close>

datatype TokenType = TWord | TNumber | TPunct | TSymbol

datatype EntityType = Email | Phone | Url | Number

record Token =
  tok_type :: TokenType
  tok_value :: jsstring
  tok_start :: nat
  tok_end :: nat

record Entity =
  ent_type :: EntityType
  ent_value :: jsstring
  ent_start :: nat
  ent_end :: nat

record IntentResult =
  input_text :: jsstring
  tokens :: "Token list"
  entities :: "Entity list"

section \<open>The number extractor\<close>

text \<open>\<open>isNumber(str)\<close> is \<open>!isNaN(parseFloat(str)) && isFinite(parseFloat(str))\<close>.\<close>

definition isNumber :: "jsstring \<Rightarrow> bool" where
  "isNumber str = (\<not> isNaN (parseFloat str) \<and> isFinite (parseFloat str))"

text \<open>The first inner loop of \<open>extractNumbers\<close>: advance \<open>i\<close> to the next digit or
  period, or to the end of the text.\<close>

function skipToNumber :: "jsstring \<Rightarrow> nat \<Rightarrow> nat" where
  "skipToNumber text i =
     (if i < length text then
        (let currentChar = charAt text i
         in if currentChar \<noteq> None
               \<and> (isDigit currentChar \<or> currentChar = Some (of_char CHR ''.''))
            then i
            else skipToNumber text (i + 1))
      else i)"
  by pat_completeness auto
termination
  by (relation "measure (\<lambda>(text, i). length text - i)") auto

text \<open>
  The second inner loop: consume digits, and one period when it stands between two
  digits and no period was consumed before. \<open>text[i - 1]\<close> is \<open>undefined\<close> at
  \<open>i = 0\<close>, and \<open>i < text.length - 1\<close> is written \<open>i + 1 < length text\<close>, subtraction
  on \<open>nat\<close> being truncated.
\<close>

function scanNumber :: "jsstring \<Rightarrow> nat \<Rightarrow> bool \<Rightarrow> nat" where
  "scanNumber text i hasDecimal =
     (if i < length text then
        (case charAt text i of
           None \<Rightarrow> i
         | Some ch \<Rightarrow>
             if isDigit (Some ch) then scanNumber text (i + 1) hasDecimal
             else if ch = of_char CHR ''.'' \<and> \<not> hasDecimal then
               (let prevChar = (if i = 0 then None else charAt text (i - 1));
                    nextChar = charAt text (i + 1)
                in if 0 < i \<and> prevChar \<noteq> None \<and> isDigit prevChar
                      \<and> i + 1 < length text \<and> nextChar \<noteq> None \<and> isDigit nextChar
                   then scanNumber text (i + 1) True
                   else i)
             else i)
      else i)"
  by pat_completeness auto
termination
  by (relation "measure (\<lambda>(text, i, hasDecimal). length text - i)") auto

text \<open>The block \<open>if (i > start) { ... }\<close>: the candidate \<open>text.substring(start, i)\<close> is
  pushed when \<open>isNumber\<close> accepts it.\<close>

definition collectNumber :: "jsstring \<Rightarrow> nat \<Rightarrow> nat \<Rightarrow> Entity list \<Rightarrow> Entity list" where
  "collectNumber text start i ents =
     (if start < i then
        (let numberValue = substring text start i
         in if isNumber numberValue
            then ents @ [\<lparr>ent_type = Number, ent_value = numberValue,
                          ent_start = start, ent_end = i\<rparr>]
            else ents)
      else ents)"

text \<open>
  The outer loop \<open>while (i < text.length)\<close>. Nothing in its body forces \<open>i\<close> to grow, so
  it is a partial function: \<open>None\<close> is a run that never returns.
\<close>

partial_function (option) extractNumbers_loop ::
  "jsstring \<Rightarrow> nat \<Rightarrow> Entity list \<Rightarrow> Entity list option" where
  "extractNumbers_loop text i ents =
     (if i < length text then
        (let start = skipToNumber text i
         in if length text \<le> start then Some ents
            else (let i' = scanNumber text start False
                  in extractNumbers_loop text i' (collectNumber text start i' ents)))
      else Some ents)"

definition extractNumbers :: "IntentResult \<Rightarrow> IntentResult option" where
  "extractNumbers input =
     map_option (\<lambda>ents. input\<lparr>entities := ents\<rparr>)
       (extractNumbers_loop (input_text input) 0 (entities input))"

declare skipToNumber.simps [simp del]
declare scanNumber.simps [simp del]
declare extractNumbers_loop.simps [code]

text \<open>A period at \<open>i\<close> that the second inner loop refuses: it does not stand between
  two digits.\<close>

definition stuckDot :: "jsstring \<Rightarrow> nat \<Rightarrow> bool" where
  "stuckDot text i =
     (i < length text \<and> text ! i = of_char CHR ''.''
      \<and> \<not> (0 < i \<and> digitUnit (text ! (i - 1))
             \<and> i + 1 < length text \<and> digitUnit (text ! (i + 1))))"

section \<open>The email extractor\<close>

text \<open>
  The pattern \<open>/[a-zA-Z0-9._%+-]+@[a-zA-Z0-9.-]+\.[a-zA-Z]{2,}/g\<close> is a sequence of
  items, each a single character of a class or a greedy repetition \<open>{m,}\<close> of a class.
  \<open>matchItems\<close> is the backtracking matcher at a fixed start: a greedy repetition first
  takes the longest run of its class and gives characters back one at a time while the
  rest of the pattern fails. The result is the length of the match.
\<close>

datatype RegexItem = One "nat \<Rightarrow> bool" | AtLeast nat "nat \<Rightarrow> bool"

fun backtrack :: "(nat \<Rightarrow> nat option) \<Rightarrow> nat \<Rightarrow> nat \<Rightarrow> nat option" where
  "backtrack k m n =
     (if n < m then None
      else (case k n of
              Some r \<Rightarrow> Some r
            | None \<Rightarrow> if n = 0 then None else backtrack k m (n - 1)))"

fun matchItems :: "RegexItem list \<Rightarrow> jsstring \<Rightarrow> nat option" where
  "matchItems [] s = Some 0"
| "matchItems (One cls # r) s =
     (case s of
        [] \<Rightarrow> None
      | c # s' \<Rightarrow> if cls c then map_option Suc (matchItems r s') else None)"
| "matchItems (AtLeast m cls # r) s =
     backtrack (\<lambda>n. map_option (\<lambda>e. n + e) (matchItems r (drop n s))) m
       (length (takeWhile cls s))"

declare backtrack.simps [simp del]

text \<open>\<open>pattern.exec(text)\<close> of a global pattern: the leftmost start at or after
  \<open>lastIndex\<close> where the pattern matches, as (index, length of the match); \<open>null\<close>
  when there is none or \<open>lastIndex\<close> is beyond the end.\<close>

definition regexExec :: "RegexItem list \<Rightarrow> jsstring \<Rightarrow> nat \<Rightarrow> (nat \<times> nat) option" where
  "regexExec re s lastIndex =
     (if length s < lastIndex then None
      else (case find (\<lambda>i. matchItems re (drop i s) \<noteq> None) [lastIndex ..< Suc (length s)] of
              None \<Rightarrow> None
            | Some i \<Rightarrow> map_option (\<lambda>n. (i, n)) (matchItems re (drop i s))))"

definition localClass :: "nat \<Rightarrow> bool" where
  "localClass c = (alnumUnit c \<or> c \<in> set (js ''._%+-''))"

definition domainClass :: "nat \<Rightarrow> bool" where
  "domainClass c = (alnumUnit c \<or> c \<in> set (js ''.-''))"

definition emailPattern :: "RegexItem list" where
  "emailPattern =
     [AtLeast 1 localClass, One (\<lambda>c. c = of_char CHR ''@''), AtLeast 1 domainClass,
      One (\<lambda>c. c = of_char CHR ''.''), AtLeast 2 alphaUnit]"

text \<open>The loop \<open>while ((match = emailPattern.exec(text)) !== null)\<close>. A successful
  \<open>exec\<close> leaves \<open>lastIndex\<close> at the end of the match; the source adds one when the
  match is empty.\<close>

function extractEmails_loop :: "jsstring \<Rightarrow> nat \<Rightarrow> Entity list \<Rightarrow> Entity list" where
  "extractEmails_loop text lastIndex ents =
     (case regexExec emailPattern text lastIndex of
        None \<Rightarrow> ents
      | Some (index, len) \<Rightarrow>
          extractEmails_loop text
            (if index = index + len then index + len + 1 else index + len)
            (ents @ [\<lparr>ent_type = Email, ent_value = substring text index (index + len),
                      ent_start = index, ent_end = index + len\<rparr>]))"
  by pat_completeness auto
termination
proof (relation "measure (\<lambda>(text, lastIndex, ents). Suc (length text) - lastIndex)")
  show "wf (measure (\<lambda>(text, lastIndex, ents). Suc (length text) - lastIndex))"
    by simp
next
  fix "text" :: jsstring and lastIndex :: nat and ents :: "Entity list"
    and x2 :: "nat \<times> nat" and index len :: nat
  assume ex: "regexExec emailPattern text lastIndex = Some x2" and x2: "(index, len) = x2"
  from ex obtain i where
    f: "find (\<lambda>i. matchItems emailPattern (drop i text) \<noteq> None)
          [lastIndex ..< Suc (length text)] = Some i"
    and i: "index = i"
    using x2 by (auto simp: regexExec_def split: if_splits option.splits)
  from f have "i \<in> set [lastIndex ..< Suc (length text)]"
    by (metis find_Some_iff nth_mem)
  with i have "lastIndex \<le> index" "index \<le> length text"
    by auto
  then show "((text, if index = index + len then index + len + 1 else index + len,
               ents @ [\<lparr>ent_type = Email, ent_value = substring text index (index + len),
                         ent_start = index, ent_end = index + len\<rparr>]),
              (text, lastIndex, ents))
             \<in> measure (\<lambda>(text, lastIndex, ents). Suc (length text) - lastIndex)"
    by auto
qed

declare extractEmails_loop.simps [simp del]

definition extractEmails :: "IntentResult \<Rightarrow> IntentResult" where
  "extractEmails input =
     input\<lparr>entities := extractEmails_loop (input_text input) 0 (entities input)\<rparr>"

section \<open>\<open>split\<close> and \<open>indexOf\<close>\<close>

text \<open>
  \<open>s.split(separator)\<close> without a limit, after the algorithm of the language
  definition: \<open>p\<close> is the start of the current piece, \<open>q\<close> the position tried; the
  matcher gives the length of the separator found exactly at \<open>q\<close>. The empty string
  splits into one empty piece unless the separator matches it.
\<close>

function splitLoop ::
  "(jsstring \<Rightarrow> nat \<Rightarrow> nat option) \<Rightarrow> jsstring \<Rightarrow> nat \<Rightarrow> nat \<Rightarrow> jsstring list \<Rightarrow> jsstring list"
  where
  "splitLoop matcher s p q acc =
     (if q < length s then
        (case matcher s q of
           None \<Rightarrow> splitLoop matcher s p (q + 1) acc
         | Some n \<Rightarrow>
             if q + n = p then splitLoop matcher s p (q + 1) acc
             else splitLoop matcher s (q + n) (q + n) (acc @ [substring s p q]))
      else acc @ [substring s p (length s)])"
  by pat_completeness auto
termination
  by (relation "measures [\<lambda>(matcher, s, p, q, acc). length s - q,
                          \<lambda>(matcher, s, p, q, acc). if p = q then 0 else 1]")
     auto

declare splitLoop.simps [simp del]

definition split :: "(jsstring \<Rightarrow> nat \<Rightarrow> nat option) \<Rightarrow> jsstring \<Rightarrow> jsstring list" where
  "split matcher s =
     (if s = [] then (case matcher s 0 of None \<Rightarrow> [[]] | Some n \<Rightarrow> [])
      else splitLoop matcher s 0 0 [])"

text \<open>The separator \<open>/[...]+/\<close>, one or more characters of a class: the longest run of
  the class at \<open>q\<close>, no match when the run is empty.\<close>

definition matchClassPlus :: "(nat \<Rightarrow> bool) \<Rightarrow> jsstring \<Rightarrow> nat \<Rightarrow> nat option" where
  "matchClassPlus cls s q =
     (let n = length (takeWhile cls (drop q s)) in if n = 0 then None else Some n)"

text \<open>A separator that is a string: it matches where the string stands.\<close>

definition matchString :: "jsstring \<Rightarrow> jsstring \<Rightarrow> nat \<Rightarrow> nat option" where
  "matchString sep s q =
     (if take (length sep) (drop q s) = sep then Some (length sep) else None)"

text \<open>\<open>s.indexOf(pat, from)\<close>: the least position at or after \<open>from\<close> (clamped to the
  length) where \<open>pat\<close> stands; \<open>None\<close> is the result \<open>-1\<close>.\<close>

definition indexOf :: "jsstring \<Rightarrow> jsstring \<Rightarrow> nat \<Rightarrow> nat option" where
  "indexOf s pat from =
     find (\<lambda>k. take (length pat) (drop k s) = pat) [min from (length s) ..< Suc (length s)]"

section \<open>The phone extractor\<close>

text \<open>The class \<open>[\s\n\r\t,;()<>[\]{}]\<close> of the split.\<close>

definition phoneDelimiter :: "nat \<Rightarrow> bool" where
  "phoneDelimiter c = (isWhiteSpace c \<or> c = 10 \<or> c = 13 \<or> c = 9 \<or> c \<in> set (js '',;()<>[]{}''))"

definition phoneSeparator :: "nat \<Rightarrow> bool" where
  "phoneSeparator c = (c \<in> set (js ''-. ()+''))"

text \<open>
  The body of \<open>for (const token of tokens)\<close>. The inner \<open>for (const char of token)\<close>
  counts digits and, among the other characters, the separators. It iterates code points;
  no digit or separator is half of a surrogate pair, so the counts are those over the code
  units.
\<close>

definition phoneToken :: "jsstring \<Rightarrow> jsstring \<Rightarrow> Entity list \<Rightarrow> Entity list" where
  "phoneToken text token ents =
     (if token = [] then ents
      else if 10 \<le> length token then
        (let digitCount = length (filter (\<lambda>c. isDigit (Some c)) token);
             separatorCount =
               length (filter (\<lambda>c. \<not> isDigit (Some c) \<and> phoneSeparator c) token)
         in if 10 \<le> digitCount \<and> digitCount \<le> 15
               \<and> digitCount + separatorCount = length token
            then (case indexOf text token 0 of
                    None \<Rightarrow> ents
                  | Some start \<Rightarrow>
                      ents @ [\<lparr>ent_type = Phone, ent_value = token,
                                ent_start = start, ent_end = start + length token\<rparr>])
            else ents)
      else ents)"

definition extractPhones :: "IntentResult \<Rightarrow> IntentResult" where
  "extractPhones input =
     (let text = input_text input;
          tokens = split (matchClassPlus phoneDelimiter) text
      in input\<lparr>entities := foldl (\<lambda>ents token. phoneToken text token ents)
                              (entities input) tokens\<rparr>)"

section \<open>The URL extractor\<close>

text \<open>\<open>isValidUrl\<close>. \<open>/^[a-zA-Z0-9-]+$/.test(part)\<close> holds when \<open>part\<close> is not empty
  and has only characters of the class; \<open>!s\<close> holds of the empty string and of
  \<open>undefined\<close>.\<close>

definition urlLabelClass :: "nat \<Rightarrow> bool" where
  "urlLabelClass c = (alnumUnit c \<or> c = of_char CHR ''-'')"

definition isValidUrl :: "jsstring \<Rightarrow> bool" where
  "isValidUrl url =
     (let parts = split (matchString (js ''://'')) url
      in if length parts \<noteq> 2 then False
         else
           (let protocol = parts ! 0; path = parts ! 1
            in if protocol = [] \<or> path = []
                  \<or> \<not> (protocol = js ''http'' \<or> protocol = js ''https'') then False
               else
                 (case split (matchString (js ''/'')) path of
                    [] \<Rightarrow> False
                  | domainPath # rest \<Rightarrow>
                      if domainPath = [] then False
                      else
                        (let domainParts = split (matchString (js ''.'')) domainPath
                         in if length domainParts < 2 then False
                            else list_all (\<lambda>part. part \<noteq> [] \<and> list_all urlLabelClass part)
                                   domainParts))))"

text \<open>The characters that end a URL: space, newline, carriage return, tab and the
  brackets.\<close>

definition urlTerminator :: "nat \<Rightarrow> bool" where
  "urlTerminator c = (c = 32 \<or> c = 10 \<or> c = 13 \<or> c = 9 \<or> c \<in> set (js ''<>()[]{}''))"

function findUrlEnd :: "jsstring \<Rightarrow> nat \<Rightarrow> nat" where
  "findUrlEnd text urlEnd =
     (if urlEnd < length text then
        (case charAt text urlEnd of
           None \<Rightarrow> urlEnd
         | Some ch \<Rightarrow> if urlTerminator ch then urlEnd else findUrlEnd text (urlEnd + 1))
      else urlEnd)"
  by pat_completeness auto
termination
  by (relation "measure (\<lambda>(text, urlEnd). length text - urlEnd)") auto

declare findUrlEnd.simps [simp del]

text \<open>The loop \<open>while (searchStart < text.length)\<close> for one protocol.\<close>

function extractUrls_loop :: "jsstring \<Rightarrow> jsstring \<Rightarrow> nat \<Rightarrow> Entity list \<Rightarrow> Entity list" where
  "extractUrls_loop text protocol searchStart ents =
     (if searchStart < length text then
        (case indexOf text protocol searchStart of
           None \<Rightarrow> ents
         | Some protocolIndex \<Rightarrow>
             (let urlEnd = findUrlEnd text (protocolIndex + length protocol);
                  url = substring text protocolIndex urlEnd
              in extractUrls_loop text protocol
                   (if searchStart < urlEnd then urlEnd else searchStart + 1)
                   (if url \<noteq> [] \<and> isValidUrl url
                    then ents @ [\<lparr>ent_type = Url, ent_value = url,
                                   ent_start = protocolIndex, ent_end = urlEnd\<rparr>]
                    else ents)))
      else ents)"
  by pat_completeness auto
termination
  by (relation "measure (\<lambda>(text, protocol, searchStart, ents). length text - searchStart)")
     auto

declare extractUrls_loop.simps [simp del]

definition extractUrls :: "IntentResult \<Rightarrow> IntentResult" where
  "extractUrls input =
     input\<lparr>entities := foldl (\<lambda>ents protocol. extractUrls_loop (input_text input) protocol 0 ents)
                           (entities input) [js ''http://'', js ''https://'']\<rparr>"

section \<open>The extract stage\<close>

text \<open>The stage \<open>extract\<close>: the four extractors in the order of the source.\<close>

definition extract_stage :: "IntentResult \<Rightarrow> IntentResult option" where
  "extract_stage input = extractNumbers (extractUrls (extractPhones (extractEmails input)))"

section \<open>The pipeline\<close>

text \<open>
  Modelled from the spec: \<open>PipelineComponent\<close> (\<open>src/core/types\<close>), the tokenizer and
  the configuration are not part of the sources at hand. A stage transforms an
  \<open>IntentResult\<close> into an \<open>IntentResult\<close> and may fail; the tokenizer is fixed by its two
  settings; the configuration is the record of flags the constructor reads.
\<close>

type_synonym PipelineComponent = "IntentResult \<Rightarrow> IntentResult option"

record TokenizerSettings =
  lowercase :: bool
  mergeSymbols :: bool

record MiniparseConfig =
  tokenizer_lowercase :: bool
  tokenizer_mergeSymbols :: bool
  enableNormalization :: bool
  enableCleaning :: bool
  enableExtraction :: bool
  enableSegmentation :: bool
  extractEmailsFlag :: bool
  extractPhonesFlag :: bool
  extractUrlsFlag :: bool
  extractNumbersFlag :: bool

record Pipeline =
  components :: "PipelineComponent list"
  tokenizer :: TokenizerSettings
  config :: MiniparseConfig

text \<open>\<open>use\<close> and \<open>addCustomProcessor\<close> push the component and return \<open>this\<close>: the
  result is the pipeline object after the push.\<close>

definition use :: "Pipeline \<Rightarrow> PipelineComponent \<Rightarrow> Pipeline" where
  "use pipeline component = pipeline\<lparr>components := components pipeline @ [component]\<rparr>"

definition addCustomProcessor :: "Pipeline \<Rightarrow> PipelineComponent \<Rightarrow> Pipeline" where
  "addCustomProcessor pipeline component =
     pipeline\<lparr>components := components pipeline @ [component]\<rparr>"

section \<open>The properties stated of the extractors\<close>

text \<open>The entities an extractor appended: those after the ones it was given.\<close>

definition appended :: "IntentResult \<Rightarrow> IntentResult \<Rightarrow> Entity list" where
  "appended input output = drop (length (entities input)) (entities output)"

text \<open>The span invariant: \<open>0 \<le> start < end \<le> length(text)\<close> and the value is the
  slice \<open>text[start:end]\<close>.\<close>

definition entityOk :: "jsstring \<Rightarrow> Entity \<Rightarrow> bool" where
  "entityOk text e =
     (0 \<le> ent_start e \<and> ent_start e < ent_end e \<and> ent_end e \<le> length text
      \<and> ent_value e = take (ent_end e - ent_start e) (drop (ent_start e) text))"

text \<open>The pieces of a string between the occurrences of one character.\<close>

fun fields :: "nat \<Rightarrow> jsstring \<Rightarrow> jsstring list" where
  "fields sep [] = [[]]"
| "fields sep (c # cs) =
     (if c = sep then [] # fields sep cs
      else (case fields sep cs of [] \<Rightarrow> [[c]] | f # fs \<Rightarrow> (c # f) # fs))"

text \<open>
  The shape of an email as the specification words it: a local part of one or more
  characters of \<open>[A-Za-z0-9._%+-]\<close>, an \<open>@\<close>, then labels separated by periods, each
  non-empty and made of alphanumerics and hyphens, at least two of them, the last one
  alphabetic and of length at least 2.
\<close>

definition emailShape :: "jsstring \<Rightarrow> bool" where
  "emailShape v =
     (case fields (of_char CHR ''@'') v of
        [localPart, domain] \<Rightarrow>
          localPart \<noteq> [] \<and> list_all localClass localPart
          \<and> (let labels = fields (of_char CHR ''.'') domain
              in 2 \<le> length labels
                 \<and> list_all (\<lambda>l. l \<noteq> [] \<and> list_all urlLabelClass l) labels
                 \<and> list_all alphaUnit (last labels) \<and> 2 \<le> length (last labels))
      | _ \<Rightarrow> False)"

text \<open>The candidates of the phone extractor, and the test the specification words: length
  at least 10, between 10 and 15 digits, digits and separators making up the whole
  candidate.\<close>

definition phoneCandidates :: "jsstring \<Rightarrow> jsstring list" where
  "phoneCandidates text = split (matchClassPlus phoneDelimiter) text"

definition phoneQualifies :: "jsstring \<Rightarrow> bool" where
  "phoneQualifies cand =
     (10 \<le> length cand
      \<and> 10 \<le> length (filter digitUnit cand) \<and> length (filter digitUnit cand) \<le> 15
      \<and> length (filter digitUnit cand) + length (filter phoneSeparator cand) = length cand)"


text \<open>What the email loop pushes: an entity of type email spanning a match of the
  pattern that starts at \<open>ent_start\<close>.\<close>

definition emailMatchAt :: "jsstring \<Rightarrow> Entity \<Rightarrow> bool" where
  "emailMatchAt text e =
     (ent_type e = Email \<and> ent_start e \<le> ent_end e \<and> ent_start e \<le> length text
      \<and> matchItems emailPattern (drop (ent_start e) text) = Some (ent_end e - ent_start e)
      \<and> ent_value e = substring text (ent_start e) (ent_end e))"

section \<open>The number extractor on a period outside a number\<close>

lemma skipToNumber_stuck: "stuckDot text i \<Longrightarrow> skipToNumber text i = i"
  by (subst skipToNumber.simps) (simp add: stuckDot_def charAt_def)

lemma scanNumber_stuck: "stuckDot text i \<Longrightarrow> scanNumber text i False = i"
  by (subst scanNumber.simps)
     (auto simp add: stuckDot_def charAt_def isDigit_def digitUnit_def)

lemma collectNumber_same: "collectNumber text i i ents = ents"
  by (simp add: collectNumber_def)

lemma skipToNumber_end: "\<not> i < length text \<Longrightarrow> skipToNumber text i = i"
  by (subst skipToNumber.simps) simp

lemma extractNumbers_loop_stuck_aux:
  assumes "extractNumbers_loop text i ents = Some r"
  shows "\<not> stuckDot text (skipToNumber text i)"
proof (rule extractNumbers_loop.raw_induct
         [where P = "\<lambda>t i e r. \<not> stuckDot t (skipToNumber t i)", OF _ assms])
  fix lp :: "jsstring \<Rightarrow> nat \<Rightarrow> Entity list \<Rightarrow> Entity list option"
  fix t i ents r
  assume IH: "\<And>t i e r. lp t i e = Some r \<Longrightarrow> \<not> stuckDot t (skipToNumber t i)"
  assume body: "(if i < length t then
        (let start = skipToNumber t i
         in if length t \<le> start then Some ents
            else (let i' = scanNumber t start False
                  in lp t i' (collectNumber t start i' ents)))
      else Some ents) = Some r"
  show "\<not> stuckDot t (skipToNumber t i)"
  proof
    assume s: "stuckDot t (skipToNumber t i)"
    then have lt: "skipToNumber t i < length t" by (simp add: stuckDot_def)
    have "i < length t"
    proof (rule ccontr)
      assume "\<not> i < length t"
      with lt show False by (simp add: skipToNumber_end)
    qed
    with body s lt have "lp t (skipToNumber t i) ents = Some r"
      by (simp add: scanNumber_stuck collectNumber_same Let_def)
    then have "\<not> stuckDot t (skipToNumber t (skipToNumber t i))" by (rule IH)
    with s show False by (simp add: skipToNumber_stuck)
  qed
qed

lemma extractNumbers_loop_stuck:
  "stuckDot text (skipToNumber text i) \<Longrightarrow> extractNumbers_loop text i ents = None"
  using extractNumbers_loop_stuck_aux by (cases "extractNumbers_loop text i ents") auto

text \<open>
  C1 (termination of the extractors). The email, phone and URL loops are total functions:
  each has a measure that its own progress guard decreases. The number extractor has no
  such guard: on the text \<open>Hi.\<close> the scan stops on the period at index 2, nothing is
  consumed there, and the outer loop starts again at the same index, so
  \<open>extractNumbers\<close> never returns.
\<close>

theorem extractNumbers_period_loops:
  "extractNumbers \<lparr>input_text = js ''Hi.'', tokens = [], entities = []\<rparr> = None"
proof -
  have "skipToNumber (js ''Hi.'') 0 = 2" by code_simp
  moreover have "stuckDot (js ''Hi.'') 2" by (simp add: stuckDot_def js_def)
  ultimately have "extractNumbers_loop (js ''Hi.'') 0 [] = None"
    by (simp add: extractNumbers_loop_stuck)
  then show ?thesis by (simp add: extractNumbers_def)
qed

lemma extractNumbers_example_price:
  "extractNumbers \<lparr>input_text = js ''price is 12.50 dollars'', tokens = [], entities = []\<rparr>
     = Some \<lparr>input_text = js ''price is 12.50 dollars'', tokens = [],
             entities = [\<lparr>ent_type = Number, ent_value = js ''12.50'',
                           ent_start = 9, ent_end = 14\<rparr>]\<rparr>"
proof -
  let ?T = "js ''price is 12.50 dollars''"
  let ?e = "\<lparr>ent_type = Number, ent_value = js ''12.50'', ent_start = 9, ent_end = 14\<rparr>"
  have len: "length ?T = 22" by (simp add: js_def)
  have s1: "skipToNumber ?T 0 = 9" by code_simp
  have s2: "scanNumber ?T 9 False = 14" by code_simp
  have n: "isNumber (js ''12.50'')"
    by (simp add: isNumber_def parseFloat_def js_def digitUnit_def isWhiteSpace_def
        toNumber_def exponentPart_def digitsValue_def overflowBound_def isNaN_def
        isFinite_def Let_def power_int_minus)
  have sub: "substring ?T 9 14 = js ''12.50''"
    by (simp add: substring_def js_def)
  have s3: "collectNumber ?T 9 14 [] = [?e]"
    by (simp add: collectNumber_def sub n)
  have s4: "skipToNumber ?T 14 = 22" by code_simp
  have "extractNumbers_loop ?T 14 [?e] = Some [?e]"
    by (subst extractNumbers_loop.simps) (simp add: len s4)
  then have "extractNumbers_loop ?T 0 [] = Some [?e]"
    by (subst extractNumbers_loop.simps) (simp add: len s1 s2 s3)
  then show ?thesis by (simp add: extractNumbers_def)
qed

lemma extractNumbers_example_sentence:
  "extractNumbers \<lparr>input_text = js ''end of sentence. Next'', tokens = [], entities = []\<rparr>
     = None"
proof -
  have "skipToNumber (js ''end of sentence. Next'') 0 = 15" by code_simp
  moreover have "stuckDot (js ''end of sentence. Next'') 15" by (simp add: stuckDot_def js_def digitUnit_def)
  ultimately have "extractNumbers_loop (js ''end of sentence. Next'') 0 [] = None"
    by (simp add: extractNumbers_loop_stuck)
  then show ?thesis by (simp add: extractNumbers_def)
qed

text \<open>
  C2 (number extractor examples). On \<open>price is 12.50 dollars\<close> the number extractor
  returns exactly one entity, of type number with value \<open>12.50\<close> at 9..14. On
  \<open>end of sentence. Next\<close> it does not return zero entities: it reaches the period at
  index 15 and never returns.
\<close>

theorem extractNumbers_examples:
  "extractNumbers \<lparr>input_text = js ''price is 12.50 dollars'', tokens = [], entities = []\<rparr>
     = Some \<lparr>input_text = js ''price is 12.50 dollars'', tokens = [],
             entities = [\<lparr>ent_type = Number, ent_value = js ''12.50'',
                           ent_start = 9, ent_end = 14\<rparr>]\<rparr>
   \<and> extractNumbers \<lparr>input_text = js ''end of sentence. Next'', tokens = [], entities = []\<rparr>
     = None"
  by (simp add: extractNumbers_example_price extractNumbers_example_sentence)

section \<open>The URL extractor on the two examples\<close>

lemma extractUrls_example_path:
  "extractUrls \<lparr>input_text = js ''visit http://example.com/path now'', tokens = [], entities = []\<rparr>
     = \<lparr>input_text = js ''visit http://example.com/path now'', tokens = [],
        entities = [\<lparr>ent_type = Url, ent_value = js ''http://example.com/path'',
                      ent_start = 6, ent_end = 29\<rparr>]\<rparr>"
proof -
  let ?T = "js ''visit http://example.com/path now''"
  let ?e = "\<lparr>ent_type = Url, ent_value = js ''http://example.com/path'',
                      ent_start = 6, ent_end = 29\<rparr>"
  have len: "length ?T = 33" by (simp add: js_def)
  have i1: "indexOf ?T (js ''http://'') 0 = Some 6" by code_simp
  have plen: "length (js ''http://'') = 7" by (simp add: js_def)
  have e1: "findUrlEnd ?T 13 = 29" by code_simp
  have sub: "substring ?T 6 29 = js ''http://example.com/path''" by (simp add: substring_def js_def)
  have v: "isValidUrl (js ''http://example.com/path'')" by code_simp
  have ne: "js ''http://example.com/path'' \<noteq> []" by (simp add: js_def)
  have i2: "indexOf ?T (js ''http://'') 29 = None" by code_simp
  have i3: "indexOf ?T (js ''https://'') 0 = None" by code_simp
  have l2: "extractUrls_loop ?T (js ''http://'') 29 [?e] = [?e]"
    by (subst extractUrls_loop.simps) (simp add: len i2)
  have l1: "extractUrls_loop ?T (js ''http://'') 0 [] = [?e]"
    by (subst extractUrls_loop.simps) (simp add: len plen i1 e1 sub v ne l2 Let_def)
  have l3: "extractUrls_loop ?T (js ''https://'') 0 [?e] = [?e]"
    by (subst extractUrls_loop.simps) (simp add: len i3)
  show ?thesis by (simp add: extractUrls_def l1 l3)
qed





section \<open>Stage registration\<close>

text \<open>
  C8 (\<open>use\<close> and \<open>addCustomProcessor\<close>). On the same pipeline and the same stage the two
  operations give the same result: the pipeline itself with the stage appended at the end
  of its component list, and nothing else changed.
\<close>

theorem use_addCustomProcessor_same:
  "use pipeline component = addCustomProcessor pipeline component
   \<and> components (use pipeline component) = components pipeline @ [component]
   \<and> tokenizer (use pipeline component) = tokenizer pipeline
   \<and> config (use pipeline component) = config pipeline"
  by (simp add: use_def addCustomProcessor_def)

section \<open>Pieces of a split occur in the string\<close>

lemma substring_take_drop:
  "a \<le> b \<Longrightarrow> b \<le> length s \<Longrightarrow> substring s a b = take (b - a) (drop a s)"
  by (simp add: substring_def Let_def min_def max_def)

lemma substring_occurs:
  "\<exists>k. k + length (substring s a b) \<le> length s
       \<and> take (length (substring s a b)) (drop k s) = substring s a b"
proof -
  define lo where "lo = min (min a (length s)) (min b (length s))"
  define hi where "hi = max (min a (length s)) (min b (length s))"
  have sub: "substring s a b = take (hi - lo) (drop lo s)"
    by (simp add: substring_def Let_def lo_def hi_def)
  have hi: "hi \<le> length s" and lo: "lo \<le> hi"
    by (simp_all add: lo_def hi_def)
  from hi have "hi - lo \<le> length s - lo" by (rule diff_le_mono)
  then have len: "length (substring s a b) = hi - lo"
    unfolding sub by (simp only: length_take length_drop min_absorb2)
  have "lo + length (substring s a b) \<le> length s"
    unfolding len using hi lo by simp
  moreover have "take (length (substring s a b)) (drop lo s) = substring s a b"
    unfolding len unfolding sub by simp
  ultimately show ?thesis by blast
qed

lemma splitLoop_pieces:
  "t \<in> set (splitLoop m s p q acc) \<Longrightarrow> t \<in> set acc \<or> (\<exists>a b. t = substring s a b)"
proof (induction m s p q acc rule: splitLoop.induct)
  case (1 m s p q acc)
  show ?case
  proof (cases "q < length s")
    case False
    with "1.prems" show ?thesis
      by (subst (asm) splitLoop.simps) auto
  next
    case True
    show ?thesis
    proof (cases "m s q")
      case None
      with True "1.prems" have "t \<in> set (splitLoop m s p (q + 1) acc)"
        by (subst (asm) splitLoop.simps) simp
      with "1.IH"(1)[OF True None] show ?thesis by blast
    next
      case (Some n)
      show ?thesis
      proof (cases "q + n = p")
        case eq: True
        with True Some "1.prems" have "t \<in> set (splitLoop m s p (q + 1) acc)"
          by (subst (asm) splitLoop.simps) simp
        with "1.IH"(2)[OF True Some eq] show ?thesis by blast
      next
        case ne: False
        with True Some "1.prems"
        have "t \<in> set (splitLoop m s (q + n) (q + n) (acc @ [substring s p q]))"
          by (subst (asm) splitLoop.simps) simp
        with "1.IH"(3)[OF True Some ne] show ?thesis by auto
      qed
    qed
  qed
qed

lemma split_pieces: "t \<in> set (split m s) \<Longrightarrow> \<exists>a b. t = substring s a b"
proof -
  assume t: "t \<in> set (split m s)"
  show ?thesis
  proof (cases "s = []")
    case True
    with t have "t = []" by (auto simp: split_def split: option.splits)
    with True have "t = substring s 0 0" by (simp add: substring_def)
    then show ?thesis by blast
  next
    case False
    with t have "t \<in> set (splitLoop m s 0 0 [])" by (simp add: split_def)
    from splitLoop_pieces[OF this] show ?thesis by simp
  qed
qed

lemma indexOf_Some:
  assumes "indexOf s pat from = Some k"
  shows "min from (length s) \<le> k \<and> k + length pat \<le> length s
         \<and> take (length pat) (drop k s) = pat
         \<and> (\<forall>j. min from (length s) \<le> j \<and> j < k \<longrightarrow> take (length pat) (drop j s) \<noteq> pat)"
proof -
  let ?P = "\<lambda>k. take (length pat) (drop k s) = pat"
  let ?lo = "min from (length s)"
  let ?xs = "[?lo ..< Suc (length s)]"
  from assms have "find ?P ?xs = Some k" by (simp add: indexOf_def)
  then obtain i where i: "i < length ?xs" "?P (?xs ! i)" "k = ?xs ! i"
    "\<forall>j<i. \<not> ?P (?xs ! j)"
    unfolding find_Some_iff by blast
  from i(1) have il: "?lo + i < Suc (length s)" by simp
  then have k: "k = ?lo + i" using i(3) by (simp only: nth_upt)
  have P: "?P k" using i(2,3) by simp
  then have "length pat = length (take (length pat) (drop k s))" by simp
  then have "length pat \<le> length s - k" by simp
  moreover have "k \<le> length s" using k il by simp
  ultimately have b: "k + length pat \<le> length s" by simp
  have "\<not> ?P j" if j: "?lo \<le> j" "j < k" for j
  proof -
    from j k have "j - ?lo < i" by simp
    with i(4) have "\<not> ?P (?xs ! (j - ?lo))" by blast
    moreover have "?xs ! (j - ?lo) = j" using j k il by (simp only: nth_upt)
    ultimately show ?thesis by simp
  qed
  with k P b show ?thesis by auto
qed

lemma indexOf_occurs:
  assumes "k + length pat \<le> length s" "take (length pat) (drop k s) = pat"
  shows "\<exists>k'. indexOf s pat 0 = Some k'"
proof -
  from assms(1) have "k < Suc (length s)" by linarith
  then have "k \<in> set [0 ..< Suc (length s)]" by (simp del: upt_Suc)
  with assms(2) have "find (\<lambda>k. take (length pat) (drop k s) = pat) [0 ..< Suc (length s)] \<noteq> None"
    unfolding find_None_iff by blast
  then show ?thesis by (simp add: indexOf_def)
qed


section \<open>What the phone extractor appends\<close>

lemma matchClassPlus_None:
  "matchClassPlus d s q = None \<Longrightarrow> q < length s \<Longrightarrow> \<not> d (s ! q)"
proof -
  assume n: "matchClassPlus d s q = None" and q: "q < length s"
  from n have "takeWhile d (drop q s) = []"
    by (simp add: matchClassPlus_def Let_def split: if_splits)
  moreover from q have "drop q s = s ! q # drop (Suc q) s"
    by (simp add: Cons_nth_drop_Suc)
  ultimately show ?thesis by (auto split: if_splits)
qed

lemma matchClassPlus_Some: "matchClassPlus d s q = Some n \<Longrightarrow> 0 < n"
  by (auto simp: matchClassPlus_def Let_def split: if_splits)

lemma substring_snoc:
  assumes "p \<le> q" "q < length s"
  shows "substring s p (Suc q) = substring s p q @ [s ! q]"
proof -
  from assms have "substring s p (Suc q) = take (Suc (q - p)) (drop p s)"
    by (simp add: substring_take_drop Suc_diff_le)
  also from assms have "\<dots> = take (q - p) (drop p s) @ [drop p s ! (q - p)]"
    by (simp add: take_Suc_conv_app_nth)
  also from assms have "\<dots> = substring s p q @ [s ! q]"
    by (simp add: substring_take_drop)
  finally show ?thesis .
qed

lemma substring_beyond:
  "\<not> q < length s \<Longrightarrow> substring s p (length s) = substring s p q"
  by (simp add: substring_def Let_def min_def)

lemma substring_empty: "substring s p p = []"
  by (simp add: substring_def Let_def)

lemma splitLoop_class_free:
  "p \<le> q \<Longrightarrow> list_all (\<lambda>c. \<not> d c) (substring s p q)
   \<Longrightarrow> (\<forall>t\<in>set acc. list_all (\<lambda>c. \<not> d c) t)
   \<Longrightarrow> t \<in> set (splitLoop (matchClassPlus d) s p q acc)
   \<Longrightarrow> list_all (\<lambda>c. \<not> d c) t"
proof (induction "matchClassPlus d" s p q acc rule: splitLoop.induct)
  case (1 s p q acc)
  show ?case
  proof (cases "q < length s")
    case False
    with "1.prems"(4) have "t \<in> set acc \<or> t = substring s p (length s)"
      by (subst (asm) splitLoop.simps) auto
    with "1.prems"(2,3) False show ?thesis
      by (auto simp: substring_beyond)
  next
    case True
    show ?thesis
    proof (cases "matchClassPlus d s q")
      case None
      with True "1.prems"(4) have t: "t \<in> set (splitLoop (matchClassPlus d) s p (q + 1) acc)"
        by (subst (asm) splitLoop.simps) simp
      from None True have "\<not> d (s ! q)" by (rule matchClassPlus_None)
      with "1.prems"(1,2) True have "list_all (\<lambda>c. \<not> d c) (substring s p (q + 1))"
        by (simp add: substring_snoc)
      with "1.hyps"(1)[OF True None _ _ "1.prems"(3) t] "1.prems"(1) show ?thesis
        by simp
    next
      case (Some n)
      then have "0 < n" by (rule matchClassPlus_Some)
      with "1.prems"(1) have ne: "q + n \<noteq> p" by simp
      with True Some "1.prems"(4)
      have t: "t \<in> set (splitLoop (matchClassPlus d) s (q + n) (q + n) (acc @ [substring s p q]))"
        by (subst (asm) splitLoop.simps) simp
      have "\<forall>t\<in>set (acc @ [substring s p q]). list_all (\<lambda>c. \<not> d c) t"
        using "1.prems"(2,3) by auto
      with "1.hyps"(3)[OF True Some ne _ _ _ t] show ?thesis
        by (simp add: substring_empty)
    qed
  qed
qed

lemma split_class_free:
  "t \<in> set (split (matchClassPlus d) s) \<Longrightarrow> list_all (\<lambda>c. \<not> d c) t"
proof (cases "s = []")
  case True
  assume "t \<in> set (split (matchClassPlus d) s)"
  with True have "t = []" by (auto simp: split_def split: option.splits)
  then show ?thesis by simp
next
  case False
  assume "t \<in> set (split (matchClassPlus d) s)"
  with False have "t \<in> set (splitLoop (matchClassPlus d) s 0 0 [])" by (simp add: split_def)
  then show ?thesis
    by (rule splitLoop_class_free[rotated 3]) (simp_all add: substring_empty)
qed

lemma phoneSeparator_not_digit: "phoneSeparator c \<Longrightarrow> \<not> digitUnit c"
  by (auto simp: phoneSeparator_def digitUnit_def js_def)

lemma phoneToken_eq:
  assumes "indexOf text tok 0 = Some k"
  shows "phoneToken text tok ents =
           (if phoneQualifies tok
            then ents @ [\<lparr>ent_type = Phone, ent_value = tok, ent_start = k,
                          ent_end = k + length tok\<rparr>]
            else ents)"
proof -
  have d: "filter (\<lambda>c. isDigit (Some c)) tok = filter digitUnit tok"
    by (simp add: isDigit_def)
  have s: "filter (\<lambda>c. \<not> isDigit (Some c) \<and> phoneSeparator c) tok = filter phoneSeparator tok"
    by (rule filter_cong) (auto simp: isDigit_def dest: phoneSeparator_not_digit)
  show ?thesis
    unfolding phoneToken_def d s Let_def using assms
    by (auto simp: phoneQualifies_def)
qed

lemma phone_fold:
  "(\<forall>t\<in>set toks. \<exists>k. indexOf text t 0 = Some k)
   \<Longrightarrow> foldl (\<lambda>ents token. phoneToken text token ents) ents toks
       = ents @ map (\<lambda>t. \<lparr>ent_type = Phone, ent_value = t,
                            ent_start = the (indexOf text t 0),
                            ent_end = the (indexOf text t 0) + length t\<rparr>)
                  (filter phoneQualifies toks)"
proof (induction toks arbitrary: ents)
  case Nil
  then show ?case by simp
next
  case (Cons t toks)
  from Cons.prems obtain k where k: "indexOf text t 0 = Some k" by auto
  from Cons.prems have rest: "\<forall>t\<in>set toks. \<exists>k. indexOf text t 0 = Some k" by simp
  show ?case
    by (simp add: phoneToken_eq[OF k] Cons.IH[OF rest] k)
qed

lemma phoneCandidates_indexOf:
  "t \<in> set (phoneCandidates text) \<Longrightarrow> \<exists>k. indexOf text t 0 = Some k"
proof -
  assume "t \<in> set (phoneCandidates text)"
  then obtain a b where "t = substring text a b"
    unfolding phoneCandidates_def by (blast dest: split_pieces)
  with substring_occurs[of "text" a b] show ?thesis
    by (blast intro: indexOf_occurs)
qed

lemma extractPhones_entities:
  "entities (extractPhones input)
     = entities input @ map (\<lambda>t. \<lparr>ent_type = Phone, ent_value = t,
                            ent_start = the (indexOf (input_text input) t 0),
                            ent_end = the (indexOf (input_text input) t 0) + length t\<rparr>)
                  (filter phoneQualifies (phoneCandidates (input_text input)))"
  using phone_fold[of "phoneCandidates (input_text input)" "input_text input" "entities input"]
    phoneCandidates_indexOf[of _ "input_text input"]
  by (simp add: extractPhones_def Let_def phoneCandidates_def)

lemma filter_count_le:
  "(\<And>x. P x \<Longrightarrow> \<not> Q x) \<Longrightarrow> length (filter P xs) + length (filter Q xs) \<le> length xs"
  by (induction xs) auto

lemma filter_count_cover:
  assumes dis: "\<And>x. P x \<Longrightarrow> \<not> Q x"
  shows "length (filter P xs) + length (filter Q xs) = length xs
         \<Longrightarrow> list_all (\<lambda>x. P x \<or> Q x) xs"
proof (induction xs)
  case Nil
  then show ?case by simp
next
  case (Cons x xs)
  have le: "length (filter P xs) + length (filter Q xs) \<le> length xs"
    using dis by (rule filter_count_le)
  show ?case
  proof (cases "P x \<or> Q x")
    case True
    with Cons.prems dis have "length (filter P xs) + length (filter Q xs) = length xs"
      by (auto split: if_splits)
    with Cons.IH True show ?thesis by simp
  next
    case False
    with Cons.prems le show ?thesis by simp
  qed
qed

lemma phone_value_chars:
  assumes q: "phoneQualifies tok" and f: "list_all (\<lambda>c. \<not> phoneDelimiter c) tok"
  shows "list_all (\<lambda>c. digitUnit c \<or> c \<in> set (js ''-.+'')) tok"
proof -
  from q have "length (filter digitUnit tok) + length (filter phoneSeparator tok) = length tok"
    by (simp add: phoneQualifies_def)
  then have "list_all (\<lambda>c. digitUnit c \<or> phoneSeparator c) tok"
    by (rule filter_count_cover[rotated]) (auto dest: phoneSeparator_not_digit)
  with f have "list_all (\<lambda>c. (digitUnit c \<or> phoneSeparator c) \<and> \<not> phoneDelimiter c) tok"
    by (simp add: list_all_iff)
  moreover have "digitUnit c \<or> c \<in> set (js ''-.+'')"
    if "(digitUnit c \<or> phoneSeparator c) \<and> \<not> phoneDelimiter c" for c
    using that by (auto simp: phoneSeparator_def phoneDelimiter_def isWhiteSpace_def js_def)
  ultimately show ?thesis by (simp add: list_all_iff)
qed

lemma appended_extractPhones:
  "appended input (extractPhones input)
     = map (\<lambda>t. \<lparr>ent_type = Phone, ent_value = t,
                  ent_start = the (indexOf (input_text input) t 0),
                  ent_end = the (indexOf (input_text input) t 0) + length t\<rparr>)
           (filter phoneQualifies (phoneCandidates (input_text input)))"
  by (simp add: appended_def extractPhones_entities)


lemma phone_example_candidates:
  "filter phoneQualifies (phoneCandidates (js ''call 555-123-4567 today'')) = [js ''555-123-4567'']"
  by (simp add: phoneCandidates_def split_def splitLoop.simps matchClassPlus_def
      phoneDelimiter_def isWhiteSpace_def js_def substring_def phoneQualifies_def digitUnit_def
      phoneSeparator_def Let_def)

lemma phone_example_index:
  "indexOf (js ''call 555-123-4567 today'') (js ''555-123-4567'') 0 = Some 5"
  by (simp add: indexOf_def js_def upt_rec)

lemma phone_example_appended:
  "appended \<lparr>input_text = js ''call 555-123-4567 today'', tokens = [], entities = []\<rparr>
     (extractPhones \<lparr>input_text = js ''call 555-123-4567 today'', tokens = [], entities = []\<rparr>)
   = [\<lparr>ent_type = Phone, ent_value = js ''555-123-4567'', ent_start = 5, ent_end = 17\<rparr>]"
proof -
  have "length (js ''555-123-4567'') = 12" by (simp add: js_def)
  then show ?thesis
    by (simp add: appended_extractPhones phone_example_candidates phone_example_index)
qed


text \<open>
  C9 (characters of a phone value). Every entity the phone extractor appends is of type
  phone and its value consists only of digits and the characters \<open>-\<close>, \<open>.\<close> and \<open>+\<close>:
  the split removes white space and parentheses, so the separators space, \<open>(\<close> and
  \<open>)\<close> never occur in a value, and \<open>(555) 123-4567\<close> is never the value of a phone
  entity.
\<close>

theorem phone_values_digits_and_signs:
  "\<forall>e \<in> set (appended input (extractPhones input)).
     ent_type e = Phone
     \<and> list_all (\<lambda>c. digitUnit c \<or> c \<in> set (js ''-.+'')) (ent_value e)
     \<and> ent_value e \<noteq> js ''(555) 123-4567''"
proof
  fix e assume "e \<in> set (appended input (extractPhones input))"
  then obtain t where t: "t \<in> set (phoneCandidates (input_text input))" "phoneQualifies t"
    and e: "ent_type e = Phone" "ent_value e = t"
    unfolding appended_extractPhones by auto
  from t(1) have "list_all (\<lambda>c. \<not> phoneDelimiter c) t"
    unfolding phoneCandidates_def by (rule split_class_free)
  with t(2) have chars: "list_all (\<lambda>c. digitUnit c \<or> c \<in> set (js ''-.+'')) t"
    by (rule phone_value_chars)
  moreover have "\<not> list_all (\<lambda>c. digitUnit c \<or> c \<in> set (js ''-.+'')) (js ''(555) 123-4567'')"
    by (simp add: js_def digitUnit_def)
  ultimately have "t \<noteq> js ''(555) 123-4567''" by metis
  with chars e show "ent_type e = Phone
     \<and> list_all (\<lambda>c. digitUnit c \<or> c \<in> set (js ''-.+'')) (ent_value e)
     \<and> ent_value e \<noteq> js ''(555) 123-4567''" by simp
qed

text \<open>The instance \<open>call 555-123-4567 today\<close>, and the text \<open>(555) 123-4567\<close>, on
  which nothing is reported.\<close>

theorem phone_values_digits_and_signs_witness:
  "list_all (\<lambda>c. digitUnit c \<or> c \<in> set (js ''-.+'')) (js ''555-123-4567'')
   \<and> js ''555-123-4567'' \<noteq> js ''(555) 123-4567''
   \<and> appended \<lparr>input_text = js ''(555) 123-4567'', tokens = [], entities = []\<rparr>
        (extractPhones \<lparr>input_text = js ''(555) 123-4567'', tokens = [], entities = []\<rparr>) = []"
proof -
  have "appended \<lparr>input_text = js ''(555) 123-4567'', tokens = [], entities = []\<rparr>
        (extractPhones \<lparr>input_text = js ''(555) 123-4567'', tokens = [], entities = []\<rparr>) = []"
    unfolding appended_extractPhones
    by (simp add: phoneCandidates_def split_def splitLoop.simps matchClassPlus_def
      phoneDelimiter_def isWhiteSpace_def js_def substring_def phoneQualifies_def digitUnit_def
      phoneSeparator_def Let_def)
  then show ?thesis
    using phone_values_digits_and_signs
          [of "\<lparr>input_text = js ''call 555-123-4567 today'', tokens = [], entities = []\<rparr>"]
    by (simp add: phone_example_appended)
qed

section \<open>What the email extractor appends\<close>

lemma backtrack_Some:
  "backtrack k m n = Some r \<Longrightarrow> \<exists>j. m \<le> j \<and> j \<le> n \<and> k j = Some r"
proof (induction k m n rule: backtrack.induct)
  case (1 k m n)
  show ?case
  proof (cases "k n")
    case (Some r')
    with "1.prems" have "\<not> n < m" "r' = r"
      by (subst (asm) backtrack.simps, simp split: if_splits)+
    with Some show ?thesis by (intro exI[of _ n]) simp
  next
    case None
    with "1.prems" have nm: "\<not> n < m" and n0: "n \<noteq> 0"
      and b: "backtrack k m (n - 1) = Some r"
      by (subst (asm) backtrack.simps, simp split: if_splits)+
    from "1.IH"[OF nm None n0 b] obtain j where "m \<le> j" "j \<le> n - 1" "k j = Some r"
      by blast
    then show ?thesis by (intro exI[of _ j]) simp
  qed
qed

lemma take_within_takeWhile:
  "j \<le> length (takeWhile P xs) \<Longrightarrow> list_all P (take j xs)"
proof -
  assume j: "j \<le> length (takeWhile P xs)"
  have "take j xs = take j (takeWhile P xs @ dropWhile P xs)" by simp
  also from j have "\<dots> = take j (takeWhile P xs)" by (simp del: takeWhile_dropWhile_id)
  finally have "set (take j xs) \<subseteq> set (takeWhile P xs)" by (simp add: set_take_subset)
  then show ?thesis by (auto simp: list_all_iff dest: set_takeWhileD)
qed

lemma matchItems_AtLeast:
  assumes "matchItems (AtLeast m cls # r) s = Some n"
  shows "\<exists>j e. m \<le> j \<and> j \<le> length s \<and> list_all cls (take j s)
               \<and> matchItems r (drop j s) = Some e \<and> n = j + e"
proof -
  from assms obtain j where j: "m \<le> j" "j \<le> length (takeWhile cls s)"
    and k: "map_option (\<lambda>e. j + e) (matchItems r (drop j s)) = Some n"
    by (auto dest: backtrack_Some)
  from k obtain e where "matchItems r (drop j s) = Some e" "n = j + e" by auto
  moreover from j(2) have "list_all cls (take j s)" by (rule take_within_takeWhile)
  moreover from j(2) have "j \<le> length s"
    by (meson le_trans length_takeWhile_le)
  ultimately show ?thesis using j(1) by blast
qed

lemma matchItems_One:
  assumes "matchItems (One cls # r) s = Some n"
  shows "\<exists>c s' e. s = c # s' \<and> cls c \<and> matchItems r s' = Some e \<and> n = Suc e"
  using assms by (cases s) (auto split: if_splits)

lemma matchItems_le: "matchItems re s = Some n \<Longrightarrow> n \<le> length s"
proof (induction re arbitrary: s n)
  case Nil
  then show ?case by simp
next
  case (Cons it re)
  show ?case
  proof (cases it)
    case (One cls)
    with Cons.prems have "matchItems (One cls # re) s = Some n" by simp
    then obtain c s' e where "s = c # s'" "matchItems re s' = Some e" "n = Suc e"
      by (blast dest: matchItems_One)
    with Cons.IH[of s' e] show ?thesis by simp
  next
    case (AtLeast m cls)
    with Cons.prems have "matchItems (AtLeast m cls # re) s = Some n" by simp
    then obtain j e where "j \<le> length s" "matchItems re (drop j s) = Some e"
      "n = j + e"
      by (blast dest: matchItems_AtLeast)
    with Cons.IH[of "drop j s" e] show ?thesis by simp
  qed
qed

lemma emailPattern_shape:
  assumes "matchItems emailPattern s = Some n"
  shows "\<exists>l d t. take n s = l @ [of_char CHR ''@''] @ d @ [of_char CHR ''.''] @ t
           \<and> l \<noteq> [] \<and> list_all localClass l \<and> d \<noteq> [] \<and> list_all domainClass d
           \<and> 2 \<le> length t \<and> list_all alphaUnit t"
proof -
  from assms obtain j1 e1 where j1: "1 \<le> j1" "j1 \<le> length s" "list_all localClass (take j1 s)"
    and m1: "matchItems [One (\<lambda>c. c = of_char CHR ''@''), AtLeast 1 domainClass,
               One (\<lambda>c. c = of_char CHR ''.''), AtLeast 2 alphaUnit] (drop j1 s) = Some e1"
    and n1: "n = j1 + e1"
    unfolding emailPattern_def by (blast dest: matchItems_AtLeast)
  from m1 obtain s1 e2 where d1: "drop j1 s = of_char CHR ''@'' # s1"
    and m2: "matchItems [AtLeast 1 domainClass, One (\<lambda>c. c = of_char CHR ''.''),
               AtLeast 2 alphaUnit] s1 = Some e2"
    and n2: "e1 = Suc e2"
    by (blast dest: matchItems_One)
  from m2 obtain j2 e3 where j2: "1 \<le> j2" "j2 \<le> length s1" "list_all domainClass (take j2 s1)"
    and m3: "matchItems [One (\<lambda>c. c = of_char CHR ''.''), AtLeast 2 alphaUnit] (drop j2 s1)
               = Some e3"
    and n3: "e2 = j2 + e3"
    by (blast dest: matchItems_AtLeast)
  from m3 obtain s2 e4 where d2: "drop j2 s1 = of_char CHR ''.'' # s2"
    and m4: "matchItems [AtLeast 2 alphaUnit] s2 = Some e4"
    and n4: "e3 = Suc e4"
    by (blast dest: matchItems_One)
  from m4 obtain j3 e5 where j3: "2 \<le> j3" "j3 \<le> length s2" "list_all alphaUnit (take j3 s2)"
    and m5: "matchItems [] (drop j3 s2) = Some e5" and n5': "e4 = j3 + e5"
    by (blast dest: matchItems_AtLeast)
  from m5 n5' have n5: "e4 = j3" by simp
  have "take n s = take j1 s @ take e1 (drop j1 s)"
    unfolding n1 by (rule take_add)
  also have "take e1 (drop j1 s) = of_char CHR ''@'' # take e2 s1"
    unfolding n2 d1 by simp
  also have "take e2 s1 = take j2 s1 @ take e3 (drop j2 s1)"
    unfolding n3 by (rule take_add)
  also have "take e3 (drop j2 s1) = of_char CHR ''.'' # take j3 s2"
    unfolding n4 n5 d2 by simp
  finally have "take n s = take j1 s @ [of_char CHR ''@''] @ take j2 s1 @ [of_char CHR ''.'']
                  @ take j3 s2"
    by simp
  moreover from j1 have "take j1 s \<noteq> []" by auto
  moreover from j2 have "take j2 s1 \<noteq> []" by auto
  moreover from j3 have "2 \<le> length (take j3 s2)" by simp
  ultimately show ?thesis using j1(3) j2(3) j3(3) by blast
qed

lemma regexExec_Some:
  assumes "regexExec re s lastIndex = Some (index, n)"
  shows "lastIndex \<le> index \<and> index \<le> length s \<and> matchItems re (drop index s) = Some n"
proof -
  from assms have f: "find (\<lambda>i. matchItems re (drop i s) \<noteq> None) [lastIndex ..< Suc (length s)]
                      = Some index"
    and m: "matchItems re (drop index s) = Some n"
    by (auto simp: regexExec_def split: if_splits option.splits)
  from f have "index \<in> set [lastIndex ..< Suc (length s)]"
    by (metis find_Some_iff nth_mem)
  then have "lastIndex \<le> index" "index \<le> length s" by (simp_all del: upt_Suc)
  with m show ?thesis by simp
qed

lemma extractEmails_loop_appends:
  "\<exists>new. extractEmails_loop text lastIndex ents = ents @ new
         \<and> (\<forall>e\<in>set new. emailMatchAt text e)"
proof (induction "text" lastIndex ents rule: extractEmails_loop.induct)
  case (1 t lastIndex ents)
  show ?case
  proof (cases "regexExec emailPattern t lastIndex")
    case None
    then have "extractEmails_loop t lastIndex ents = ents @ []"
      by (subst extractEmails_loop.simps) simp
    then show ?thesis by (intro exI[of _ "[]"]) simp
  next
    case (Some x)
    obtain index len where x: "x = (index, len)" by (cases x)
    let ?e = "\<lparr>ent_type = Email, ent_value = substring t index (index + len),
                ent_start = index, ent_end = index + len\<rparr>"
    let ?li = "if index = index + len then index + len + 1 else index + len"
    from Some x have ex: "regexExec emailPattern t lastIndex = Some (index, len)" by simp
    from "1.IH"[OF ex refl] obtain new where
      new: "extractEmails_loop t ?li (ents @ [?e]) = (ents @ [?e]) @ new"
      and ok: "\<forall>e\<in>set new. emailMatchAt t e"
      by blast
    from ex have eq: "extractEmails_loop t lastIndex ents = extractEmails_loop t ?li (ents @ [?e])"
      by (subst extractEmails_loop.simps) simp
    from regexExec_Some[OF ex] have "emailMatchAt t ?e"
      by (simp add: emailMatchAt_def)
    with ok have "\<forall>e\<in>set (?e # new). emailMatchAt t e" by simp
    moreover from eq new have "extractEmails_loop t lastIndex ents = ents @ (?e # new)" by simp
    ultimately show ?thesis by blast
  qed
qed

lemma appended_extractEmails:
  "e \<in> set (appended input (extractEmails input)) \<Longrightarrow> emailMatchAt (input_text input) e"
proof -
  obtain new where "extractEmails_loop (input_text input) 0 (entities input) = entities input @ new"
    and "\<forall>e\<in>set new. emailMatchAt (input_text input) e"
    using extractEmails_loop_appends by blast
  moreover assume "e \<in> set (appended input (extractEmails input))"
  ultimately show ?thesis by (simp add: appended_def extractEmails_def)
qed

lemma emailMatchAt_value:
  assumes "emailMatchAt text e"
  shows "ent_value e = take (ent_end e - ent_start e) (drop (ent_start e) text)
         \<and> ent_end e \<le> length text"
proof -
  from assms have m: "matchItems emailPattern (drop (ent_start e) text) = Some (ent_end e - ent_start e)"
    and le: "ent_start e \<le> ent_end e" "ent_start e \<le> length text"
    and v: "ent_value e = substring text (ent_start e) (ent_end e)"
    by (simp_all add: emailMatchAt_def)
  from matchItems_le[OF m] le have "ent_end e \<le> length text" by simp
  with le v show ?thesis by (simp add: substring_take_drop)
qed

lemmas email_eval =
  regexExec_def emailPattern_def js_def backtrack.simps localClass_def domainClass_def
  alnumUnit_def alphaUnit_def digitUnit_def upt_rec

lemma email_example_double_dot:
  "appended \<lparr>input_text = js ''user@example..com'', tokens = [], entities = []\<rparr>
     (extractEmails \<lparr>input_text = js ''user@example..com'', tokens = [], entities = []\<rparr>)
   = [\<lparr>ent_type = Email, ent_value = js ''user@example..com'', ent_start = 0, ent_end = 17\<rparr>]"
proof -
  let ?T = "js ''user@example..com''"
  let ?e = "\<lparr>ent_type = Email, ent_value = ?T, ent_start = 0, ent_end = 17\<rparr>"
  have r1: "regexExec emailPattern ?T 0 = Some (0, 17)" by (simp add: email_eval)
  have r2: "regexExec emailPattern ?T 17 = None" by (simp add: email_eval)
  have sub: "substring ?T 0 17 = ?T" by (simp add: substring_def js_def)
  have "extractEmails_loop ?T 17 [?e] = [?e]"
    by (subst extractEmails_loop.simps) (simp add: r2)
  then have "extractEmails_loop ?T 0 [] = [?e]"
    by (subst extractEmails_loop.simps) (simp add: r1 sub)
  then show ?thesis by (simp add: appended_def extractEmails_def)
qed

text \<open>
  C3 (shape of a reported email). On \<open>user@example..com\<close> the email extractor reports
  the whole text: the class \<open>[a-zA-Z0-9.-]\<close> of the domain takes \<open>example.\<close>, period
  included. The label between the two periods is empty, so the value does not have the
  shape with non-empty labels.
\<close>

theorem email_double_dot_reported:
  "appended \<lparr>input_text = js ''user@example..com'', tokens = [], entities = []\<rparr>
     (extractEmails \<lparr>input_text = js ''user@example..com'', tokens = [], entities = []\<rparr>)
   = [\<lparr>ent_type = Email, ent_value = js ''user@example..com'', ent_start = 0, ent_end = 17\<rparr>]
   \<and> \<not> emailShape (js ''user@example..com'')"
proof -
  have "\<not> emailShape (js ''user@example..com'')"
    by (simp add: emailShape_def js_def)
  then show ?thesis by (simp add: email_example_double_dot)
qed

lemma email_example_contact:
  "appended \<lparr>input_text = js ''contact me at john.doe@example.com please'', tokens = [], entities = []\<rparr>
     (extractEmails \<lparr>input_text = js ''contact me at john.doe@example.com please'', tokens = [], entities = []\<rparr>)
   = [\<lparr>ent_type = Email, ent_value = js ''john.doe@example.com'', ent_start = 14, ent_end = 34\<rparr>]"
proof -
  let ?T = "js ''contact me at john.doe@example.com please''"
  let ?e = "\<lparr>ent_type = Email, ent_value = js ''john.doe@example.com'', ent_start = 14, ent_end = 34\<rparr>"
  have r1: "regexExec emailPattern ?T 0 = Some (14, 20)" by (simp add: email_eval)
  have r2: "regexExec emailPattern ?T 34 = None" by (simp add: email_eval)
  have sub: "substring ?T 14 34 = js ''john.doe@example.com''" by (simp add: substring_def js_def)
  have "extractEmails_loop ?T 34 [?e] = [?e]"
    by (subst extractEmails_loop.simps) (simp add: r2)
  then have "extractEmails_loop ?T 0 [] = [?e]"
    by (subst extractEmails_loop.simps) (simp add: r1 sub)
  then show ?thesis by (simp add: appended_def extractEmails_def)
qed

text \<open>
  C3, as the pattern has it. Every entity the email extractor appends is of type email and
  its value is a local part of one or more characters of \<open>[A-Za-z0-9._%+-]\<close>, an \<open>@\<close>,
  a domain of one or more characters of \<open>[A-Za-z0-9.-]\<close> (its labels may be empty), a
  period, and a last label that is alphabetic and of length at least 2.
\<close>

theorem email_values_match_pattern:
  "\<forall>e \<in> set (appended input (extractEmails input)).
     ent_type e = Email
     \<and> (\<exists>l d t. ent_value e = l @ [of_char CHR ''@''] @ d @ [of_char CHR ''.''] @ t
           \<and> l \<noteq> [] \<and> list_all localClass l \<and> d \<noteq> [] \<and> list_all domainClass d
           \<and> 2 \<le> length t \<and> list_all alphaUnit t)"
proof
  fix e assume "e \<in> set (appended input (extractEmails input))"
  then have m: "emailMatchAt (input_text input) e" by (rule appended_extractEmails)
  then have "matchItems emailPattern (drop (ent_start e) (input_text input))
               = Some (ent_end e - ent_start e)"
    and ty: "ent_type e = Email"
    by (simp_all add: emailMatchAt_def)
  from emailPattern_shape[OF this(1)] emailMatchAt_value[OF m] ty
  show "ent_type e = Email
     \<and> (\<exists>l d t. ent_value e = l @ [of_char CHR ''@''] @ d @ [of_char CHR ''.''] @ t
           \<and> l \<noteq> [] \<and> list_all localClass l \<and> d \<noteq> [] \<and> list_all domainClass d
           \<and> 2 \<le> length t \<and> list_all alphaUnit t)"
    by simp
qed

text \<open>The instance \<open>contact me at john.doe@example.com please\<close>.\<close>

theorem email_values_match_pattern_witness:
  "\<exists>l d t. js ''john.doe@example.com'' = l @ [of_char CHR ''@''] @ d @ [of_char CHR ''.''] @ t
           \<and> l \<noteq> [] \<and> list_all localClass l \<and> d \<noteq> [] \<and> list_all domainClass d
           \<and> 2 \<le> length t \<and> list_all alphaUnit t"
  using email_values_match_pattern
    [of "\<lparr>input_text = js ''contact me at john.doe@example.com please'', tokens = [], entities = []\<rparr>"]
  unfolding email_example_contact by simp

section \<open>The span of the entities\<close>

lemma findUrlEnd_bounds:
  "urlEnd \<le> findUrlEnd text urlEnd
   \<and> (urlEnd \<le> length text \<longrightarrow> findUrlEnd text urlEnd \<le> length text)"
proof (induction "text" urlEnd rule: findUrlEnd.induct)
  case (1 t urlEnd)
  show ?case
  proof (cases "urlEnd < length t \<and> \<not> urlTerminator (t ! urlEnd)")
    case True
    then have "findUrlEnd t urlEnd = findUrlEnd t (urlEnd + 1)"
      by (subst findUrlEnd.simps) (simp add: charAt_def)
    moreover from True have "charAt t urlEnd = Some (t ! urlEnd)" by (simp add: charAt_def)
    ultimately show ?thesis using "1.IH"[of "t ! urlEnd"] True by auto
  next
    case False
    then have "findUrlEnd t urlEnd = urlEnd"
      by (subst findUrlEnd.simps) (auto simp: charAt_def)
    then show ?thesis by simp
  qed
qed

lemma extractUrls_loop_appends:
  "\<exists>new. extractUrls_loop text protocol searchStart ents = ents @ new
         \<and> (\<forall>e\<in>set new. ent_type e = Url \<and> entityOk text e)"
proof (induction "text" protocol searchStart ents rule: extractUrls_loop.induct)
  case (1 t protocol searchStart ents)
  show ?case
  proof (cases "searchStart < length t")
    case False
    then have "extractUrls_loop t protocol searchStart ents = ents @ []"
      by (subst extractUrls_loop.simps) simp
    then show ?thesis by (intro exI[of _ "[]"]) simp
  next
    case True
    show ?thesis
    proof (cases "indexOf t protocol searchStart")
      case None
      with True have "extractUrls_loop t protocol searchStart ents = ents @ []"
        by (subst extractUrls_loop.simps) simp
      then show ?thesis by (intro exI[of _ "[]"]) simp
    next
      case (Some protocolIndex)
      define urlEnd where "urlEnd = findUrlEnd t (protocolIndex + length protocol)"
      define url where "url = substring t protocolIndex urlEnd"
      define pushed where
        "pushed = (if url \<noteq> [] \<and> isValidUrl url
                   then [\<lparr>ent_type = Url, ent_value = url, ent_start = protocolIndex,
                           ent_end = urlEnd\<rparr>]
                   else [])"
      define next_start where
        "next_start = (if searchStart < urlEnd then urlEnd else searchStart + 1)"
      have step: "extractUrls_loop t protocol searchStart ents
                    = extractUrls_loop t protocol next_start (ents @ pushed)"
        using True Some
        by (subst extractUrls_loop.simps)
           (simp add: Let_def urlEnd_def url_def pushed_def next_start_def)
      have a1: "(if searchStart < urlEnd then urlEnd else searchStart + 1) = next_start"
        by (simp add: next_start_def)
      have a2: "(if url \<noteq> [] \<and> isValidUrl url
                 then ents @ [\<lparr>ent_type = Url, ent_value = url, ent_start = protocolIndex,
                                ent_end = urlEnd\<rparr>]
                 else ents) = ents @ pushed"
        by (simp add: pushed_def)
      from "1.IH"[OF True Some urlEnd_def url_def]
      have "\<exists>new. extractUrls_loop t protocol next_start (ents @ pushed) = (ents @ pushed) @ new
              \<and> (\<forall>e\<in>set new. ent_type e = Url \<and> entityOk t e)"
        unfolding a1 a2 .
      then obtain new where
        new: "extractUrls_loop t protocol next_start (ents @ pushed) = (ents @ pushed) @ new"
        and ok: "\<forall>e\<in>set new. ent_type e = Url \<and> entityOk t e"
        by blast
      from indexOf_Some[OF Some] have pi: "protocolIndex + length protocol \<le> length t" by simp
      with findUrlEnd_bounds[of "protocolIndex + length protocol" t]
      have ue: "protocolIndex \<le> urlEnd" "urlEnd \<le> length t"
        unfolding urlEnd_def by simp_all
      then have u: "url = take (urlEnd - protocolIndex) (drop protocolIndex t)"
        unfolding url_def by (rule substring_take_drop)
      have "\<forall>e\<in>set pushed. ent_type e = Url \<and> entityOk t e"
      proof (cases "url \<noteq> [] \<and> isValidUrl url")
        case False
        then have "pushed = []" unfolding pushed_def by (rule if_not_P)
        then show ?thesis by simp
      next
        case valid: True
        then have p: "pushed = [\<lparr>ent_type = Url, ent_value = url, ent_start = protocolIndex,
                                   ent_end = urlEnd\<rparr>]"
          unfolding pushed_def by (rule if_P)
        from valid u have "urlEnd - protocolIndex \<noteq> 0" by auto
        with ue u show ?thesis by (simp add: p entityOk_def)
      qed
      with ok have "\<forall>e\<in>set (pushed @ new). ent_type e = Url \<and> entityOk t e" by auto
      moreover from step new have "extractUrls_loop t protocol searchStart ents = ents @ (pushed @ new)"
        by simp
      ultimately show ?thesis by blast
    qed
  qed
qed

lemma appended_extractUrls:
  "e \<in> set (appended input (extractUrls input)) \<Longrightarrow> ent_type e = Url \<and> entityOk (input_text input) e"
proof -
  obtain new1 where n1: "extractUrls_loop (input_text input) (js ''http://'') 0 (entities input)
                          = entities input @ new1"
    and ok1: "\<forall>e\<in>set new1. ent_type e = Url \<and> entityOk (input_text input) e"
    using extractUrls_loop_appends by blast
  obtain new2 where n2: "extractUrls_loop (input_text input) (js ''https://'') 0 (entities input @ new1)
                          = (entities input @ new1) @ new2"
    and ok2: "\<forall>e\<in>set new2. ent_type e = Url \<and> entityOk (input_text input) e"
    using extractUrls_loop_appends by blast
  have "appended input (extractUrls input) = new1 @ new2"
    by (simp add: appended_def extractUrls_def n1 n2)
  moreover assume "e \<in> set (appended input (extractUrls input))"
  ultimately show ?thesis using ok1 ok2 by auto
qed

lemma appended_extractEmails_ok:
  "e \<in> set (appended input (extractEmails input)) \<Longrightarrow> entityOk (input_text input) e"
proof -
  assume "e \<in> set (appended input (extractEmails input))"
  then have m: "emailMatchAt (input_text input) e" by (rule appended_extractEmails)
  then have "matchItems emailPattern (drop (ent_start e) (input_text input))
               = Some (ent_end e - ent_start e)"
    and le: "ent_start e \<le> ent_end e"
    by (simp_all add: emailMatchAt_def)
  from emailPattern_shape[OF this(1)] have "take (ent_end e - ent_start e)
      (drop (ent_start e) (input_text input)) \<noteq> []" by auto
  then have "ent_end e - ent_start e \<noteq> 0" by auto
  with emailMatchAt_value[OF m] show ?thesis by (simp add: entityOk_def)
qed

lemma appended_extractPhones_ok:
  "e \<in> set (appended input (extractPhones input)) \<Longrightarrow> entityOk (input_text input) e"
proof -
  assume "e \<in> set (appended input (extractPhones input))"
  then obtain t where t: "t \<in> set (phoneCandidates (input_text input))" "phoneQualifies t"
    and e: "e = \<lparr>ent_type = Phone, ent_value = t,
                  ent_start = the (indexOf (input_text input) t 0),
                  ent_end = the (indexOf (input_text input) t 0) + length t\<rparr>"
    unfolding appended_extractPhones by auto
  from t(1) obtain k where k: "indexOf (input_text input) t 0 = Some k"
    by (blast dest: phoneCandidates_indexOf)
  from t(2) have "10 \<le> length t" by (simp add: phoneQualifies_def)
  then have "t \<noteq> []" by auto
  with indexOf_Some[OF k] show ?thesis
    by (simp add: e k entityOk_def)
qed

lemma scanNumber_bounds:
  "i \<le> scanNumber text i hasDecimal
   \<and> (i \<le> length text \<longrightarrow> scanNumber text i hasDecimal \<le> length text)"
proof (induction "text" i hasDecimal rule: scanNumber.induct)
  case (1 t i hasDecimal)
  consider (digit) "i < length t" "digitUnit (t ! i)"
    | (dot) "i < length t" "\<not> digitUnit (t ! i)" "t ! i = of_char CHR ''.''" "\<not> hasDecimal"
        "0 < i" "digitUnit (t ! (i - 1))" "i + 1 < length t" "digitUnit (t ! (i + 1))"
    | (stop) "scanNumber t i hasDecimal = i"
  proof -
    have "scanNumber t i hasDecimal = i" if "\<not> i < length t"
      using that by (subst scanNumber.simps) simp
    moreover have "scanNumber t i hasDecimal = i"
      if "i < length t" "\<not> digitUnit (t ! i)"
         "\<not> (t ! i = of_char CHR ''.'' \<and> \<not> hasDecimal \<and> 0 < i \<and> digitUnit (t ! (i - 1))
             \<and> i + 1 < length t \<and> digitUnit (t ! (i + 1)))"
      using that by (subst scanNumber.simps) (auto simp: charAt_def isDigit_def)
    ultimately show ?thesis using digit dot stop by blast
  qed
  then show ?case
  proof cases
    case digit
    then have c: "charAt t i = Some (t ! i)" and d: "isDigit (Some (t ! i))"
      by (simp_all add: charAt_def isDigit_def)
    then have "scanNumber t i hasDecimal = scanNumber t (i + 1) hasDecimal"
      using digit by (subst scanNumber.simps) simp
    with "1.IH"(1)[OF digit(1) c d] digit(1) show ?thesis by simp
  next
    case dot
    then have c: "charAt t i = Some (t ! i)" and d: "\<not> isDigit (Some (t ! i))"
      by (simp_all add: charAt_def isDigit_def)
    have eq: "scanNumber t i hasDecimal = scanNumber t (i + 1) True"
      using dot by (subst scanNumber.simps) (auto simp: charAt_def isDigit_def)
    have "i + 1 \<le> scanNumber t (i + 1) True
          \<and> (i + 1 \<le> length t \<longrightarrow> scanNumber t (i + 1) True \<le> length t)"
      using dot by (intro "1.IH"(2)[OF dot(1) c d _ refl refl]) (simp_all add: charAt_def isDigit_def)
    with eq dot(1) show ?thesis by simp
  next
    case stop
    then show ?thesis by simp
  qed
qed

lemma collectNumber_appends:
  assumes "start \<le> length text"
  shows "\<exists>new. collectNumber text start (scanNumber text start False) ents = ents @ new
           \<and> (\<forall>e\<in>set new. ent_type e = Number \<and> entityOk text e)"
proof -
  define i where "i = scanNumber text start False"
  from scanNumber_bounds[of start "text" False] assms have b: "start \<le> i" "i \<le> length text"
    by (simp_all add: i_def)
  show ?thesis
  proof (cases "start < i \<and> isNumber (substring text start i)")
    case True
    then have "collectNumber text start i ents
                 = ents @ [\<lparr>ent_type = Number, ent_value = substring text start i,
                             ent_start = start, ent_end = i\<rparr>]"
      by (simp add: collectNumber_def)
    moreover from True b have "entityOk text \<lparr>ent_type = Number, ent_value = substring text start i,
                             ent_start = start, ent_end = i\<rparr>"
      by (simp add: entityOk_def substring_take_drop)
    ultimately show ?thesis unfolding i_def[symmetric] by simp
  next
    case False
    then have "collectNumber text start i ents = ents @ []"
      by (auto simp: collectNumber_def)
    then show ?thesis unfolding i_def[symmetric] by (intro exI[of _ "[]"]) simp
  qed
qed

lemma extractNumbers_loop_appends:
  assumes "extractNumbers_loop text i ents = Some r"
  shows "\<exists>new. r = ents @ new \<and> (\<forall>e\<in>set new. ent_type e = Number \<and> entityOk text e)"
proof (rule extractNumbers_loop.raw_induct
         [where P = "\<lambda>t i ents r. \<exists>new. r = ents @ new
                        \<and> (\<forall>e\<in>set new. ent_type e = Number \<and> entityOk t e)", OF _ assms])
  fix lp :: "jsstring \<Rightarrow> nat \<Rightarrow> Entity list \<Rightarrow> Entity list option"
  fix t i ents r
  assume IH: "\<And>t i ents r. lp t i ents = Some r \<Longrightarrow>
                \<exists>new. r = ents @ new \<and> (\<forall>e\<in>set new. ent_type e = Number \<and> entityOk t e)"
  assume body: "(if i < length t then
        (let start = skipToNumber t i
         in if length t \<le> start then Some ents
            else (let i' = scanNumber t start False
                  in lp t i' (collectNumber t start i' ents)))
      else Some ents) = Some r"
  show "\<exists>new. r = ents @ new \<and> (\<forall>e\<in>set new. ent_type e = Number \<and> entityOk t e)"
  proof (cases "i < length t \<and> skipToNumber t i < length t")
    case False
    with body have "r = ents @ []" by (auto simp: Let_def split: if_splits)
    then show ?thesis by (intro exI[of _ "[]"]) simp
  next
    case True
    define start where "start = skipToNumber t i"
    from True body have
      "lp t (scanNumber t start False) (collectNumber t start (scanNumber t start False) ents) = Some r"
      by (simp add: Let_def start_def)
    from IH[OF this] obtain new where
      new: "r = collectNumber t start (scanNumber t start False) ents @ new"
      and ok: "\<forall>e\<in>set new. ent_type e = Number \<and> entityOk t e"
      by blast
    from True have "start \<le> length t" by (simp add: start_def)
    from collectNumber_appends[OF this] obtain pushed where
      p: "collectNumber t start (scanNumber t start False) ents = ents @ pushed"
      and okp: "\<forall>e\<in>set pushed. ent_type e = Number \<and> entityOk t e"
      by blast
    from new p have "r = ents @ (pushed @ new)" by simp
    moreover from ok okp have "\<forall>e\<in>set (pushed @ new). ent_type e = Number \<and> entityOk t e"
      by auto
    ultimately show ?thesis by blast
  qed
qed

lemma appended_extractNumbers:
  assumes "extractNumbers input = Some result" "e \<in> set (appended input result)"
  shows "ent_type e = Number \<and> entityOk (input_text input) e"
proof -
  from assms(1) obtain r where r: "extractNumbers_loop (input_text input) 0 (entities input) = Some r"
    and out: "result = input\<lparr>entities := r\<rparr>"
    by (auto simp: extractNumbers_def)
  from extractNumbers_loop_appends[OF r] obtain new where "r = entities input @ new"
    and "\<forall>e\<in>set new. ent_type e = Number \<and> entityOk (input_text input) e"
    by blast
  with assms(2) out show ?thesis by (simp add: appended_def)
qed

text \<open>
  C5 (span invariant). Every entity an extractor appends satisfies
  \<open>0 \<le> start < end \<le> length(text)\<close> and its value is the slice \<open>text[start:end]\<close>
  of the input text: for the email, phone and URL extractors on every input; for the number
  extractor on every input on which it returns; and, whether it returns or not, for the
  entity pushed by one pass of its loop from any position of the text.
\<close>

theorem entities_span_the_text:
  "(\<forall>e \<in> set (appended input (extractEmails input)). entityOk (input_text input) e)
   \<and> (\<forall>e \<in> set (appended input (extractPhones input)). entityOk (input_text input) e)
   \<and> (\<forall>e \<in> set (appended input (extractUrls input)). entityOk (input_text input) e)
   \<and> (\<forall>result. extractNumbers input = Some result \<longrightarrow>
         (\<forall>e \<in> set (appended input result). entityOk (input_text input) e))
   \<and> (\<forall>start ents. start < length (input_text input) \<longrightarrow>
         (\<forall>e \<in> set (drop (length ents)
                        (collectNumber (input_text input) start
                           (scanNumber (input_text input) start False) ents)).
            entityOk (input_text input) e))"
proof (intro conjI allI impI ballI)
  fix e assume "e \<in> set (appended input (extractEmails input))"
  then show "entityOk (input_text input) e" by (rule appended_extractEmails_ok)
next
  fix e assume "e \<in> set (appended input (extractPhones input))"
  then show "entityOk (input_text input) e" by (rule appended_extractPhones_ok)
next
  fix e assume "e \<in> set (appended input (extractUrls input))"
  then show "entityOk (input_text input) e" by (simp add: appended_extractUrls)
next
  fix result e
  assume "extractNumbers input = Some result" "e \<in> set (appended input result)"
  then show "entityOk (input_text input) e" by (simp add: appended_extractNumbers)
next
  fix start ents e
  assume s: "start < length (input_text input)"
    and e: "e \<in> set (drop (length ents)
                        (collectNumber (input_text input) start
                           (scanNumber (input_text input) start False) ents))"
  from s have "start \<le> length (input_text input)" by simp
  from collectNumber_appends[OF this, of ents] e
  show "entityOk (input_text input) e" by auto
qed

text \<open>One instance for each extractor.\<close>

theorem entities_span_the_text_witness:
  "entityOk (js ''contact me at john.doe@example.com please'')
     \<lparr>ent_type = Email, ent_value = js ''john.doe@example.com'', ent_start = 14, ent_end = 34\<rparr>
   \<and> entityOk (js ''call 555-123-4567 today'')
     \<lparr>ent_type = Phone, ent_value = js ''555-123-4567'', ent_start = 5, ent_end = 17\<rparr>
   \<and> entityOk (js ''visit http://example.com/path now'')
     \<lparr>ent_type = Url, ent_value = js ''http://example.com/path'', ent_start = 6, ent_end = 29\<rparr>
   \<and> entityOk (js ''price is 12.50 dollars'')
     \<lparr>ent_type = Number, ent_value = js ''12.50'', ent_start = 9, ent_end = 14\<rparr>"
proof -
  have "entityOk (js ''contact me at john.doe@example.com please'')
     \<lparr>ent_type = Email, ent_value = js ''john.doe@example.com'', ent_start = 14, ent_end = 34\<rparr>"
    using entities_span_the_text
      [of "\<lparr>input_text = js ''contact me at john.doe@example.com please'', tokens = [],
             entities = []\<rparr>"]
    by (simp add: email_example_contact)
  moreover have "entityOk (js ''call 555-123-4567 today'')
     \<lparr>ent_type = Phone, ent_value = js ''555-123-4567'', ent_start = 5, ent_end = 17\<rparr>"
    using entities_span_the_text
      [of "\<lparr>input_text = js ''call 555-123-4567 today'', tokens = [], entities = []\<rparr>"]
    by (simp add: phone_example_appended)
  moreover have "entityOk (js ''visit http://example.com/path now'')
     \<lparr>ent_type = Url, ent_value = js ''http://example.com/path'', ent_start = 6, ent_end = 29\<rparr>"
    using entities_span_the_text
      [of "\<lparr>input_text = js ''visit http://example.com/path now'', tokens = [], entities = []\<rparr>"]
    by (simp add: appended_def extractUrls_example_path)
  moreover have "entityOk (js ''price is 12.50 dollars'')
     \<lparr>ent_type = Number, ent_value = js ''12.50'', ent_start = 9, ent_end = 14\<rparr>"
    using entities_span_the_text
      [of "\<lparr>input_text = js ''price is 12.50 dollars'', tokens = [], entities = []\<rparr>"]
    by (simp add: appended_def extractNumbers_example_price)
  ultimately show ?thesis by simp
qed

section \<open>The candidates of the number extractor\<close>














end
